theory Spec2Isabelle
  imports Main "HOL-Library.AList" "HOL-Library.Multiset"
begin

section \<open>Data model (types/review.ts)\<close>

text \<open>
  The TypeScript type \<open>number\<close> is modelled by \<open>int\<close>: timestamps, revision numbers
  and reviewer identifiers are exact integers, of either sign, as the declared type admits
  (fractions, \<open>NaN\<close> and the infinities are left out). Field names shared by several
  types are written qualified (\<open>ReviewerData.Id\<close>).
\<close>

datatype ReviewEventType = Invited | Accepted | Completed

record ReviewEvent =
  Date :: int
  Event :: ReviewEventType
  Revision :: int
  Id :: int

record ReviewData =
  Uuid :: string
  CorrespondingAuthor :: string
  DocumentId :: int
  FirstAuthor :: string
  JournalAcronym :: string
  JournalName :: string
  LastUpdated :: int
  LatestRevisionNumber :: int
  ManuscriptTitle :: string
  PubdNumber :: string
  ReviewEvents :: "ReviewEvent list"
  Status :: int
  SubmissionDate :: int

record ReviewerData =
  Id :: int
  InvitedDate :: int
  AcceptedDate :: int
  CompletedDate :: int
  LastUpdated :: int
  Collapsed :: bool

record RevisionData =
  Id :: int
  Collapsed :: bool
  Reviewers :: "ReviewerData list"

record FormattedReviewData =
  CorrespondingAuthor :: string
  JournalAcronym :: string
  JournalName :: string
  LastUpdated :: int
  ManuscriptTitle :: string
  SubmissionDate :: int
  Revisions :: "RevisionData list"

section \<open>JavaScript objects used as maps\<close>

text \<open>
  \<open>ReviewerMap\<close> and \<open>RevisionMap\<close> are plain objects indexed by numbers. An object is
  modelled by the list of its own properties in the order of their creation, with distinct
  keys: reading a property is \<open>map_of\<close>, and assigning one is \<open>AList.update\<close>, which
  replaces the value in place when the key exists and appends the property otherwise.
\<close>

type_synonym 'v jsobj = "(int \<times> 'v) list"

type_synonym ReviewerMap = "ReviewerData jsobj"

type_synonym RevisionMap = "ReviewerMap jsobj"

text \<open>
  A property key is an array index when it is the canonical form of an integer from
  \<open>0\<close> to \<open>2^32 - 2\<close>.
\<close>

definition isArrayIndex :: "int \<Rightarrow> bool" where
  "isArrayIndex k \<longleftrightarrow> 0 \<le> k \<and> k < 2 ^ 32 - 1"

text \<open>
  \<open>Object.entries\<close> and \<open>Object.values\<close> enumerate the own properties of an object in
  the order of \<open>OrdinaryOwnPropertyKeys\<close>: first the array indices in ascending numeric
  order, then the other keys in the order of their creation.
\<close>

definition objEntries :: "'v jsobj \<Rightarrow> (int \<times> 'v) list" where
  "objEntries obj =
     sort_key fst (filter (\<lambda>p. isArrayIndex (fst p)) obj) @
     filter (\<lambda>p. \<not> isArrayIndex (fst p)) obj"

definition objValues :: "'v jsobj \<Rightarrow> 'v list" where
  "objValues obj = map snd (objEntries obj)"

section \<open>The aggregation (formatReviewData)\<close>

text \<open>The object literal stored for a reviewer seen for the first time (lines 72--79).\<close>

definition newReviewer :: "int \<Rightarrow> ReviewerData" where
  "newReviewer reviewerId =
     \<lparr>ReviewerData.Id = reviewerId, InvitedDate = 0, AcceptedDate = 0, CompletedDate = 0,
      ReviewerData.LastUpdated = 0, ReviewerData.Collapsed = True\<rparr>"

text \<open>
  The four assignments at the end of the \<open>forEach\<close> callback (lines 84--88), on the
  reviewer object: the three tests of the event kind, then the test of the date.
\<close>

definition applyEvent :: "ReviewerData \<Rightarrow> ReviewEvent \<Rightarrow> ReviewerData" where
  "applyEvent reviewer event =
     (let r1 = (if Event event = Invited then reviewer\<lparr>InvitedDate := Date event\<rparr> else reviewer);
          r2 = (if Event event = Accepted then r1\<lparr>AcceptedDate := Date event\<rparr> else r1);
          r3 = (if Event event = Completed then r2\<lparr>CompletedDate := Date event\<rparr> else r2)
      in if Date event > ReviewerData.LastUpdated r3
         then r3\<lparr>ReviewerData.LastUpdated := Date event\<rparr> else r3)"

text \<open>
  The body of the \<open>forEach\<close> callback (lines 65--89), as a function from the object
  \<open>groupedEvents\<close> before the event to the object after it. A revision or a reviewer that is absent is
  created at the end of its object; the reviewer object is then updated in place.
\<close>

definition foldEvent :: "RevisionMap \<Rightarrow> ReviewEvent \<Rightarrow> RevisionMap" where
  "foldEvent groupedEvents event =
     (let revision = Revision event;
          reviewerId = ReviewEvent.Id event;
          reviewerMap = (case map_of groupedEvents revision of
                           None \<Rightarrow> [] | Some m \<Rightarrow> m);
          reviewer = (case map_of reviewerMap reviewerId of
                        None \<Rightarrow> newReviewer reviewerId | Some r \<Rightarrow> r)
      in AList.update revision
           (AList.update reviewerId (applyEvent reviewer event) reviewerMap)
           groupedEvents)"

definition groupEvents :: "ReviewEvent list \<Rightarrow> RevisionMap" where
  "groupEvents events = foldl foldEvent [] events"

text \<open>
  The two sorts (lines 91--100) are \<open>Array.prototype.sort\<close> with a numeric comparator,
  a stable sort: \<open>sort_key\<close> is the stable insertion sort. The keys of \<open>groupedEvents\<close>
  are converted back with \<open>Number\<close>.
\<close>

definition toRevisionData :: "int \<times> ReviewerMap \<Rightarrow> RevisionData" where
  "toRevisionData p =
     \<lparr>RevisionData.Id = fst p, RevisionData.Collapsed = True,
      Reviewers = sort_key ReviewerData.LastUpdated (objValues (snd p))\<rparr>"

definition revisionsOf :: "ReviewEvent list \<Rightarrow> RevisionData list" where
  "revisionsOf events = map toRevisionData (sort_key fst (objEntries (groupEvents events)))"

text \<open>
  The function itself (lines 60--113). \<open>None\<close> is \<open>null\<close>, as an argument and as a
  result.
\<close>

definition formatReviewData :: "ReviewData option \<Rightarrow> FormattedReviewData option" where
  "formatReviewData reviewData =
     (case reviewData of
        None \<Rightarrow> None
      | Some rd \<Rightarrow>
          Some \<lparr>FormattedReviewData.CorrespondingAuthor = ReviewData.CorrespondingAuthor rd,
                FormattedReviewData.JournalAcronym = ReviewData.JournalAcronym rd,
                FormattedReviewData.JournalName = ReviewData.JournalName rd,
                FormattedReviewData.LastUpdated = ReviewData.LastUpdated rd,
                FormattedReviewData.ManuscriptTitle = ReviewData.ManuscriptTitle rd,
                FormattedReviewData.SubmissionDate = ReviewData.SubmissionDate rd,
                Revisions = revisionsOf (ReviewEvents rd)\<rparr>)"

section \<open>The derived status (getStatus)\<close>

text \<open>Lines 142--147. A number is truthy when it is not \<open>0\<close>.\<close>

definition getStatus :: "ReviewerData \<Rightarrow> string" where
  "getStatus reviewer =
     (if CompletedDate reviewer \<noteq> 0 then ''Completed''
      else if AcceptedDate reviewer \<noteq> 0 then ''Accepted''
      else if InvitedDate reviewer \<noteq> 0 then ''Invited''
      else ''Unknown'')"

section \<open>Notions used in the statements\<close>

text \<open>The key of the reviewer state that an event is folded into.\<close>

definition eventKey :: "ReviewEvent \<Rightarrow> int \<times> int" where
  "eventKey event = (Revision event, ReviewEvent.Id event)"

text \<open>The events of a key, in the order of the input.\<close>

definition eventsOf :: "ReviewEvent list \<Rightarrow> int \<times> int \<Rightarrow> ReviewEvent list" where
  "eventsOf events k = filter (\<lambda>e. eventKey e = k) events"

text \<open>
  The reads \<open>groupedEvents[revision]\<close> and \<open>groupedEvents[revision][reviewerId]\<close>;
  \<open>None\<close> is \<open>undefined\<close>.
\<close>

definition reviewerMapAt :: "RevisionMap \<Rightarrow> int \<Rightarrow> ReviewerMap" where
  "reviewerMapAt groupedEvents revision =
     (case map_of groupedEvents revision of None \<Rightarrow> [] | Some m \<Rightarrow> m)"

definition reviewerAt :: "RevisionMap \<Rightarrow> int \<Rightarrow> int \<Rightarrow> ReviewerData option" where
  "reviewerAt groupedEvents revision reviewerId =
     map_of (reviewerMapAt groupedEvents revision) reviewerId"

text \<open>The position in the input of the first event of a key (the length of the input if none).\<close>

definition firstIndex :: "ReviewEvent list \<Rightarrow> int \<times> int \<Rightarrow> nat" where
  "firstIndex events k = length (takeWhile (\<lambda>e. eventKey e \<noteq> k) events)"

text \<open>
  The order in which \<open>Object.values\<close> enumerates two reviewers \<open>a\<close> and \<open>b\<close> of a
  revision: array indices first and in ascending order, then the other identifiers in the
  order in which their keys first occurred in the input.
\<close>

definition enumeratedBefore :: "ReviewEvent list \<Rightarrow> int \<Rightarrow> int \<Rightarrow> int \<Rightarrow> bool" where
  "enumeratedBefore events revision a b =
     (if isArrayIndex a then (isArrayIndex b \<longrightarrow> a < b)
      else \<not> isArrayIndex b \<and>
           firstIndex events (revision, a) < firstIndex events (revision, b))"

text \<open>The date field that an event of a given kind is written to.\<close>

definition dateOf :: "ReviewEventType \<Rightarrow> ReviewerData \<Rightarrow> int" where
  "dateOf kind r =
     (case kind of Invited \<Rightarrow> InvitedDate r | Accepted \<Rightarrow> AcceptedDate r
      | Completed \<Rightarrow> CompletedDate r)"

text \<open>All the keys of the nested object, revision by revision.\<close>

definition allKeys :: "RevisionMap \<Rightarrow> (int \<times> int) list" where
  "allKeys groupedEvents =
     concat (map (\<lambda>p. map (\<lambda>q. (fst p, fst q)) (snd p)) groupedEvents)"

text \<open>The keys of the reviewer states of a result, group by group.\<close>

definition outputKeys :: "RevisionData list \<Rightarrow> (int \<times> int) list" where
  "outputKeys revisions =
     concat (map (\<lambda>grp. map (\<lambda>r. (RevisionData.Id grp, ReviewerData.Id r)) (Reviewers grp))
               revisions)"

text \<open>
  The invariant of the nested object: keys are distinct at both levels, and a reviewer
  is stored under its own identifier.
\<close>

definition wellFormed :: "RevisionMap \<Rightarrow> bool" where
  "wellFormed groupedEvents \<longleftrightarrow>
     distinct (map fst groupedEvents) \<and>
     (\<forall>p \<in> set groupedEvents.
        distinct (map fst (snd p)) \<and> snd p \<noteq> [] \<and>
        (\<forall>q \<in> set (snd p). ReviewerData.Id (snd q) = fst q))"

text \<open>
  The value of \<open>LastUpdated\<close> that the events of a key give to its reviewer: the largest
  of \<open>0\<close> and their timestamps.
\<close>

definition lastUpdatedOf :: "ReviewEvent list \<Rightarrow> int \<times> int \<Rightarrow> int" where
  "lastUpdatedOf events k = foldl max 0 (map Date (eventsOf events k))"

text \<open>
  Two inputs agree on the ties: any two reviewers of a revision whose identifiers are
  not array indices and whose \<open>LastUpdated\<close> are equal have their keys first occur in the
  same relative order in both inputs.
\<close>

definition tiesKeepOrder :: "ReviewEvent list \<Rightarrow> ReviewEvent list \<Rightarrow> bool" where
  "tiesKeepOrder events events' \<longleftrightarrow>
     (\<forall>e1 \<in> set events. \<forall>e2 \<in> set events.
        Revision e1 = Revision e2 \<and>
        \<not> isArrayIndex (ReviewEvent.Id e1) \<and> \<not> isArrayIndex (ReviewEvent.Id e2) \<and>
        lastUpdatedOf events (eventKey e1) = lastUpdatedOf events (eventKey e2) \<longrightarrow>
        (firstIndex events' (eventKey e1) < firstIndex events' (eventKey e2) \<longleftrightarrow>
         firstIndex events (eventKey e1) < firstIndex events (eventKey e2)))"

subsection \<open>Sample data\<close>

definition ev :: "int \<Rightarrow> ReviewEventType \<Rightarrow> int \<Rightarrow> int \<Rightarrow> ReviewEvent" where
  "ev t kind revision reviewerId =
     \<lparr>Date = t, Event = kind, Revision = revision, ReviewEvent.Id = reviewerId\<rparr>"

definition manuscript :: "ReviewEvent list \<Rightarrow> ReviewData" where
  "manuscript events =
     \<lparr>Uuid = ''0a1b'', ReviewData.CorrespondingAuthor = ''A. Author'', DocumentId = 7,
      FirstAuthor = ''B. Author'', ReviewData.JournalAcronym = ''JRN'',
      ReviewData.JournalName = ''Journal'', ReviewData.LastUpdated = 1700000500,
      LatestRevisionNumber = 1, ReviewData.ManuscriptTitle = ''Title'',
      PubdNumber = ''P1'', ReviewEvents = events, Status = 3,
      ReviewData.SubmissionDate = 1700000000\<rparr>"

definition formatted :: "RevisionData list \<Rightarrow> FormattedReviewData" where
  "formatted revisions =
     \<lparr>FormattedReviewData.CorrespondingAuthor = ''A. Author'',
      FormattedReviewData.JournalAcronym = ''JRN'',
      FormattedReviewData.JournalName = ''Journal'',
      FormattedReviewData.LastUpdated = 1700000500,
      FormattedReviewData.ManuscriptTitle = ''Title'',
      FormattedReviewData.SubmissionDate = 1700000000,
      Revisions = revisions\<rparr>"

definition revisionData :: "int \<Rightarrow> ReviewerData list \<Rightarrow> RevisionData" where
  "revisionData n reviewers =
     \<lparr>RevisionData.Id = n, RevisionData.Collapsed = True, Reviewers = reviewers\<rparr>"

definition reviewerData :: "int \<Rightarrow> int \<Rightarrow> int \<Rightarrow> int \<Rightarrow> int \<Rightarrow> ReviewerData" where
  "reviewerData reviewerId invited accepted completed updated =
     \<lparr>ReviewerData.Id = reviewerId, InvitedDate = invited, AcceptedDate = accepted,
      CompletedDate = completed, ReviewerData.LastUpdated = updated,
      ReviewerData.Collapsed = True\<rparr>"

section \<open>The fold pass\<close>

lemma applyEvent_Id: "ReviewerData.Id (applyEvent r e) = ReviewerData.Id r"
  by (simp add: applyEvent_def Let_def)

lemma reviewerMapAt_foldEvent:
  "reviewerMapAt (foldEvent g e) rv =
     (if rv = Revision e
      then AList.update (ReviewEvent.Id e)
             (applyEvent (case reviewerAt g rv (ReviewEvent.Id e) of
                            None \<Rightarrow> newReviewer (ReviewEvent.Id e) | Some r \<Rightarrow> r) e)
             (reviewerMapAt g rv)
      else reviewerMapAt g rv)"
  by (simp add: reviewerMapAt_def reviewerAt_def foldEvent_def Let_def update_conv')

lemma reviewerAt_foldEvent:
  "reviewerAt (foldEvent g e) rv i =
     (if (rv, i) = eventKey e
      then Some (applyEvent (case reviewerAt g rv i of
                               None \<Rightarrow> newReviewer i | Some r \<Rightarrow> r) e)
      else reviewerAt g rv i)"
  by (auto simp: reviewerAt_def reviewerMapAt_foldEvent eventKey_def update_conv')

lemma groupEvents_Nil: "groupEvents [] = []"
  by (simp add: groupEvents_def)

lemma groupEvents_snoc: "groupEvents (es @ [e]) = foldEvent (groupEvents es) e"
  by (simp add: groupEvents_def)

lemma keys_foldEvent: "fst ` set (foldEvent g e) = insert (Revision e) (fst ` set g)"
  by (simp add: foldEvent_def Let_def dom_update)

lemma keys_groupEvents: "fst ` set (groupEvents es) = Revision ` set es"
  by (induction es rule: rev_induct) (auto simp: groupEvents_Nil groupEvents_snoc keys_foldEvent)

lemma set_update_distinct:
  "distinct (map fst al) \<Longrightarrow> set (AList.update k v al) = insert (k, v) {p \<in> set al. fst p \<noteq> k}"
  by (induction al) (auto simp: rev_image_eqI)

lemma wellFormed_Nil: "wellFormed []"
  by (simp add: wellFormed_def)

lemma wellFormed_reviewerMapAt:
  assumes "wellFormed g"
  shows "distinct (map fst (reviewerMapAt g rv))"
    and "\<forall>q \<in> set (reviewerMapAt g rv). ReviewerData.Id (snd q) = fst q"
proof -
  show "distinct (map fst (reviewerMapAt g rv))"
  proof (cases "map_of g rv")
    case None
    then show ?thesis by (simp add: reviewerMapAt_def)
  next
    case (Some m)
    then have "(rv, m) \<in> set g" by (rule map_of_SomeD)
    with assms have "distinct (map fst m)" unfolding wellFormed_def by fastforce
    with Some show ?thesis by (simp add: reviewerMapAt_def)
  qed
  show "\<forall>q \<in> set (reviewerMapAt g rv). ReviewerData.Id (snd q) = fst q"
  proof (cases "map_of g rv")
    case None
    then show ?thesis by (simp add: reviewerMapAt_def)
  next
    case (Some m)
    then have "(rv, m) \<in> set g" by (rule map_of_SomeD)
    with assms have "\<forall>q \<in> set m. ReviewerData.Id (snd q) = fst q"
      unfolding wellFormed_def by fastforce
    with Some show ?thesis by (simp add: reviewerMapAt_def)
  qed
qed

lemma wellFormed_foldEvent:
  assumes "wellFormed g"
  shows "wellFormed (foldEvent g e)"
proof -
  let ?m = "reviewerMapAt g (Revision e)"
  let ?i = "ReviewEvent.Id e"
  let ?r = "applyEvent (case map_of ?m ?i of None \<Rightarrow> newReviewer ?i | Some r \<Rightarrow> r) e"
  have fe: "foldEvent g e = AList.update (Revision e) (AList.update ?i ?r ?m) g"
    by (simp add: foldEvent_def Let_def reviewerMapAt_def)
  have dg: "distinct (map fst g)" using assms by (simp add: wellFormed_def)
  have dm: "distinct (map fst ?m)" by (rule wellFormed_reviewerMapAt(1)[OF assms])
  have idm: "\<forall>q \<in> set ?m. ReviewerData.Id (snd q) = fst q"
    by (rule wellFormed_reviewerMapAt(2)[OF assms])
  have idr: "ReviewerData.Id ?r = ?i"
  proof (cases "map_of ?m ?i")
    case None
    then show ?thesis by (simp add: applyEvent_Id newReviewer_def)
  next
    case (Some r)
    then have "(?i, r) \<in> set ?m" by (rule map_of_SomeD)
    with idm have "ReviewerData.Id r = ?i" by auto
    with Some show ?thesis by (simp add: applyEvent_Id)
  qed
  have new: "distinct (map fst (AList.update ?i ?r ?m))"
    "AList.update ?i ?r ?m \<noteq> []"
    "\<forall>q \<in> set (AList.update ?i ?r ?m). ReviewerData.Id (snd q) = fst q"
    using dm idm idr by (auto simp: distinct_update set_update_distinct)
  have old: "\<forall>p \<in> set g. distinct (map fst (snd p)) \<and> snd p \<noteq> [] \<and>
        (\<forall>q \<in> set (snd p). ReviewerData.Id (snd q) = fst q)"
    using assms by (simp add: wellFormed_def)
  have "\<forall>p \<in> set (foldEvent g e). distinct (map fst (snd p)) \<and> snd p \<noteq> [] \<and>
        (\<forall>q \<in> set (snd p). ReviewerData.Id (snd q) = fst q)"
  proof
    fix p assume "p \<in> set (foldEvent g e)"
    then have "p = (Revision e, AList.update ?i ?r ?m) \<or> p \<in> set g"
      using dg by (auto simp: fe set_update_distinct)
    then show "distinct (map fst (snd p)) \<and> snd p \<noteq> [] \<and>
        (\<forall>q \<in> set (snd p). ReviewerData.Id (snd q) = fst q)"
      using new old by auto
  qed
  moreover have "distinct (map fst (foldEvent g e))"
    using dg by (simp add: fe distinct_update)
  ultimately show ?thesis by (simp add: wellFormed_def)
qed

lemma wellFormed_groupEvents: "wellFormed (groupEvents es)"
  by (induction es rule: rev_induct)
    (simp_all add: groupEvents_Nil groupEvents_snoc wellFormed_Nil wellFormed_foldEvent)

lemma eventsOf_Nil: "eventsOf [] k = []"
  by (simp add: eventsOf_def)

lemma eventsOf_snoc:
  "eventsOf (es @ [e]) k = (if eventKey e = k then eventsOf es k @ [e] else eventsOf es k)"
  by (simp add: eventsOf_def)

lemma reviewerAt_groupEvents:
  "reviewerAt (groupEvents es) rv i =
     (if eventsOf es (rv, i) = [] then None
      else Some (foldl applyEvent (newReviewer i) (eventsOf es (rv, i))))"
proof (induction es rule: rev_induct)
  case Nil
  then show ?case
    by (simp add: groupEvents_Nil eventsOf_Nil reviewerAt_def reviewerMapAt_def)
next
  case (snoc e es)
  show ?case
  proof (cases "eventKey e = (rv, i)")
    case True
    then show ?thesis
      using snoc by (simp add: groupEvents_snoc reviewerAt_foldEvent eventsOf_snoc)
  next
    case False
    then have "(rv, i) \<noteq> eventKey e" by auto
    then show ?thesis
      using snoc False by (simp add: groupEvents_snoc reviewerAt_foldEvent eventsOf_snoc)
  qed
qed

lemma LastUpdated_applyEvent:
  "ReviewerData.LastUpdated (applyEvent r e) = max (ReviewerData.LastUpdated r) (Date e)"
  by (simp add: applyEvent_def Let_def max_def)

lemma LastUpdated_foldl:
  "ReviewerData.LastUpdated (foldl applyEvent r es) =
     Max (insert (ReviewerData.LastUpdated r) (Date ` set es))"
proof (induction es rule: rev_induct)
  case Nil
  then show ?case by simp
next
  case (snoc e es)
  have "Max (insert (Date e) (insert (ReviewerData.LastUpdated r) (Date ` set es))) =
        max (Date e) (Max (insert (ReviewerData.LastUpdated r) (Date ` set es)))"
    by (rule Max_insert) simp_all
  then show ?case
    using snoc by (simp add: LastUpdated_applyEvent insert_commute max.commute)
qed

lemma set_objEntries: "set (objEntries obj) = set obj"
  by (auto simp: objEntries_def)

lemma mset_objEntries: "mset (objEntries obj) = mset obj"
  by (simp add: objEntries_def)

lemma set_revisionsOf:
  "set (revisionsOf es) = toRevisionData ` set (groupEvents es)"
  by (simp add: revisionsOf_def set_objEntries)

lemma set_Reviewers: "set (Reviewers (toRevisionData p)) = snd ` set (snd p)"
  by (simp add: toRevisionData_def objValues_def set_objEntries)

lemma wellFormed_map_of:
  assumes "wellFormed g" "(rv, m) \<in> set g"
  shows "reviewerMapAt g rv = m"
proof -
  have "distinct (map fst g)" using assms(1) by (simp add: wellFormed_def)
  then have "map_of g rv = Some m" using assms(2) by simp
  then show ?thesis by (simp add: reviewerMapAt_def)
qed

lemma reviewer_in_output:
  assumes "grp \<in> set (revisionsOf es)" "r \<in> set (Reviewers grp)"
  shows "reviewerAt (groupEvents es) (RevisionData.Id grp) (ReviewerData.Id r) = Some r"
proof -
  let ?g = "groupEvents es"
  have wf: "wellFormed ?g" by (rule wellFormed_groupEvents)
  from assms(1) obtain rv m where p: "(rv, m) \<in> set ?g" and grp: "grp = toRevisionData (rv, m)"
    by (auto simp: set_revisionsOf)
  have m: "reviewerMapAt ?g rv = m" by (rule wellFormed_map_of[OF wf p])
  from assms(2) grp obtain i where q: "(i, r) \<in> set m"
    by (auto simp: set_Reviewers)
  have "ReviewerData.Id r = i"
    using wellFormed_reviewerMapAt(2)[OF wf, of rv] q m by auto
  moreover have "map_of m i = Some r"
    using wellFormed_reviewerMapAt(1)[OF wf, of rv] q m by simp
  moreover have "RevisionData.Id grp = rv" by (simp add: grp toRevisionData_def)
  ultimately show ?thesis by (simp add: reviewerAt_def m)
qed

lemma output_of_reviewer:
  assumes "reviewerAt (groupEvents es) rv i = Some r"
  shows "\<exists>grp \<in> set (revisionsOf es). RevisionData.Id grp = rv \<and> r \<in> set (Reviewers grp)"
proof -
  let ?g = "groupEvents es"
  from assms have q: "(i, r) \<in> set (reviewerMapAt ?g rv)"
    unfolding reviewerAt_def by (rule map_of_SomeD)
  then obtain m where m: "map_of ?g rv = Some m" "reviewerMapAt ?g rv = m"
    by (cases "map_of ?g rv") (auto simp: reviewerMapAt_def)
  then have "(rv, m) \<in> set ?g" by (auto dest: map_of_SomeD)
  then have "toRevisionData (rv, m) \<in> set (revisionsOf es)"
    by (auto simp: set_revisionsOf)
  moreover have "r \<in> set (Reviewers (toRevisionData (rv, m)))"
    using q m by (force simp: set_Reviewers)
  moreover have "RevisionData.Id (toRevisionData (rv, m)) = rv"
    by (simp add: toRevisionData_def)
  ultimately show ?thesis by blast
qed

lemma eventsOf_nonempty: "e \<in> set es \<Longrightarrow> eventsOf es (eventKey e) \<noteq> []"
  by (auto simp: eventsOf_def filter_empty_conv)

lemma set_eventsOf: "set (eventsOf es k) = {e \<in> set es. eventKey e = k}"
  by (auto simp: eventsOf_def)

lemma formatReviewData_Some:
  "formatReviewData (Some rd) = Some out \<Longrightarrow> Revisions out = revisionsOf (ReviewEvents rd)"
  by (auto simp: formatReviewData_def)

lemma dateOf_applyEvent: "dateOf (Event e) (applyEvent r e) = Date e"
  by (cases "Event e") (simp_all add: dateOf_def applyEvent_def Let_def)

lemma revisionsOf_single_key:
  assumes "eventKey e2 = eventKey e1"
  shows "revisionsOf [e1, e2] =
     [revisionData (Revision e1)
        [applyEvent (applyEvent (newReviewer (ReviewEvent.Id e1)) e1) e2]]"
proof -
  from assms have k: "Revision e2 = Revision e1" "ReviewEvent.Id e2 = ReviewEvent.Id e1"
    by (simp_all add: eventKey_def)
  have "groupEvents [e1, e2] =
      [(Revision e1, [(ReviewEvent.Id e1,
          applyEvent (applyEvent (newReviewer (ReviewEvent.Id e1)) e1) e2)])]"
    by (simp add: groupEvents_def foldEvent_def k Let_def)
  then show ?thesis
    by (simp add: revisionsOf_def objEntries_def objValues_def toRevisionData_def
        revisionData_def)
qed

lemma LastUpdated_reviewerAt:
  assumes "reviewerAt (groupEvents es) rv i = Some r"
  shows "ReviewerData.LastUpdated r = Max (insert 0 (Date ` set (eventsOf es (rv, i))))"
proof -
  from assms have "r = foldl applyEvent (newReviewer i) (eventsOf es (rv, i))"
    by (simp add: reviewerAt_groupEvents split: if_splits)
  then have "ReviewerData.LastUpdated r =
      Max (insert (ReviewerData.LastUpdated (newReviewer i)) (Date ` set (eventsOf es (rv, i))))"
    by (simp only: LastUpdated_foldl)
  then show ?thesis by (simp add: newReviewer_def)
qed

lemma someDate_applyEvent:
  "Date e \<noteq> 0 \<Longrightarrow>
   InvitedDate (applyEvent r e) \<noteq> 0 \<or> AcceptedDate (applyEvent r e) \<noteq> 0 \<or>
   CompletedDate (applyEvent r e) \<noteq> 0"
  by (cases "Event e") (simp_all add: applyEvent_def Let_def)

lemma someDate_reviewerAt:
  assumes "reviewerAt (groupEvents es) rv i = Some r" and "\<forall>e \<in> set es. Date e \<noteq> 0"
  shows "InvitedDate r \<noteq> 0 \<or> AcceptedDate r \<noteq> 0 \<or> CompletedDate r \<noteq> 0"
proof -
  let ?evs = "eventsOf es (rv, i)"
  from assms(1) have ne: "?evs \<noteq> []" and r: "r = foldl applyEvent (newReviewer i) ?evs"
    by (simp_all add: reviewerAt_groupEvents split: if_splits)
  from ne obtain xs x where evs: "?evs = xs @ [x]"
    by (cases ?evs rule: rev_cases) auto
  then have "x \<in> set ?evs" by simp
  then have "x \<in> set es" by (simp add: set_eventsOf)
  with assms(2) have "Date x \<noteq> 0" by blast
  moreover have "r = applyEvent (foldl applyEvent (newReviewer i) xs) x"
    by (simp add: r evs)
  ultimately show ?thesis using someDate_applyEvent[of x] by blast
qed

lemma reviewerAt_Id:
  assumes "wellFormed g" "reviewerAt g rv i = Some r"
  shows "ReviewerData.Id r = i"
proof -
  from assms(2) have "(i, r) \<in> set (reviewerMapAt g rv)"
    unfolding reviewerAt_def by (rule map_of_SomeD)
  with wellFormed_reviewerMapAt(2)[OF assms(1), of rv] show ?thesis by auto
qed

section \<open>The revisions of the result and its reviewer states\<close>

lemma Id_toRevisionData: "RevisionData.Id (toRevisionData p) = fst p"
  by (simp add: toRevisionData_def)

lemma map_Id_revisionsOf:
  "map RevisionData.Id (revisionsOf es) = map fst (sort_key fst (objEntries (groupEvents es)))"
  by (simp add: revisionsOf_def Id_toRevisionData)

lemma distinct_keys_sort_entries:
  assumes "distinct (map fst obj)"
  shows "distinct (map fst (sort_key fst (objEntries obj)))"
proof -
  have "mset (map fst (sort_key fst (objEntries obj))) = mset (map fst obj)"
    by (simp add: mset_objEntries)
  from mset_eq_imp_distinct_iff[OF this] show ?thesis using assms by simp
qed

lemma allKeys_Cons:
  "allKeys (p # g) = map (\<lambda>q. (fst p, fst q)) (snd p) @ allKeys g"
  by (simp add: allKeys_def)

lemma fst_allKeys: "k \<in> set (allKeys g) \<Longrightarrow> fst k \<in> fst ` set g"
  by (force simp: allKeys_def)

lemma distinct_allKeys:
  assumes "distinct (map fst g)" "\<forall>p \<in> set g. distinct (map fst (snd p))"
  shows "distinct (allKeys g)"
  using assms
proof (induction g)
  case Nil
  then show ?case by (simp add: allKeys_def)
next
  case (Cons p g)
  have "distinct (map (\<lambda>q. (fst p, fst q)) (snd p))"
    using Cons.prems(2) by (simp add: distinct_map inj_on_def)
  moreover have "distinct (allKeys g)" using Cons by simp
  moreover have "set (map (\<lambda>q. (fst p, fst q)) (snd p)) \<inter> set (allKeys g) = {}"
    using Cons.prems(1) fst_allKeys[of _ g] by fastforce
  ultimately show ?case by (simp add: allKeys_Cons)
qed

lemma set_allKeys:
  assumes "distinct (map fst g)"
  shows "set (allKeys g) = {(rv, i). reviewerAt g rv i \<noteq> None}"
proof -
  have "(rv, i) \<in> set (allKeys g) \<longleftrightarrow> reviewerAt g rv i \<noteq> None" for rv i
  proof
    assume "(rv, i) \<in> set (allKeys g)"
    then obtain m where m: "(rv, m) \<in> set g" "i \<in> fst ` set m"
      by (force simp: allKeys_def)
    then have "map_of g rv = Some m" using assms by simp
    then show "reviewerAt g rv i \<noteq> None"
      using m(2) by (simp add: reviewerAt_def reviewerMapAt_def map_of_eq_None_iff)
  next
    assume "reviewerAt g rv i \<noteq> None"
    then obtain r where "map_of (reviewerMapAt g rv) i = Some r"
      by (auto simp: reviewerAt_def)
    then have q: "(i, r) \<in> set (reviewerMapAt g rv)" by (rule map_of_SomeD)
    then obtain m where "map_of g rv = Some m" "reviewerMapAt g rv = m"
      by (cases "map_of g rv") (auto simp: reviewerMapAt_def)
    then have "(rv, m) \<in> set g" "(i, r) \<in> set m" using q by (auto dest: map_of_SomeD)
    then show "(rv, i) \<in> set (allKeys g)" by (force simp: allKeys_def)
  qed
  then show ?thesis by auto
qed

lemma set_allKeys_groupEvents: "set (allKeys (groupEvents es)) = eventKey ` set es"
proof -
  have "distinct (map fst (groupEvents es))"
    using wellFormed_groupEvents[of es] by (simp add: wellFormed_def)
  then have "set (allKeys (groupEvents es)) = {(rv, i). eventsOf es (rv, i) \<noteq> []}"
    by (simp add: set_allKeys reviewerAt_groupEvents)
  also have "\<dots> = eventKey ` set es"
    by (force simp: eventsOf_def filter_empty_conv)
  finally show ?thesis .
qed

lemma mset_outputKeys:
  "mset (outputKeys (revisionsOf es)) = mset (allKeys (groupEvents es))"
proof -
  let ?g = "groupEvents es"
  have wf: "wellFormed ?g" by (rule wellFormed_groupEvents)
  have inner: "mset (map (\<lambda>r. (RevisionData.Id (toRevisionData p), ReviewerData.Id r))
                  (Reviewers (toRevisionData p))) =
               mset (map (\<lambda>q. (fst p, fst q)) (snd p))" if "p \<in> set ?g" for p
  proof -
    have "\<forall>q \<in> set (snd p). ReviewerData.Id (snd q) = fst q"
      using wf that by (simp add: wellFormed_def)
    then have "image_mset (\<lambda>q. (fst p, ReviewerData.Id (snd q))) (mset (snd p)) =
               image_mset (\<lambda>q. (fst p, fst q)) (mset (snd p))"
      by (intro image_mset_cong) simp
    then show ?thesis
      by (simp add: toRevisionData_def objValues_def mset_objEntries multiset.map_comp comp_def)
  qed
  have "mset (outputKeys (revisionsOf es)) =
        (\<Sum>p\<in>#mset (sort_key fst (objEntries ?g)).
           mset (map (\<lambda>r. (RevisionData.Id (toRevisionData p), ReviewerData.Id r))
                  (Reviewers (toRevisionData p))))"
    by (simp add: outputKeys_def revisionsOf_def mset_concat comp_def
        flip: sum_mset_sum_list)
  also have "\<dots> = (\<Sum>p\<in>#mset ?g.
           mset (map (\<lambda>r. (RevisionData.Id (toRevisionData p), ReviewerData.Id r))
                  (Reviewers (toRevisionData p))))"
    by (simp add: mset_objEntries)
  also have "\<dots> = (\<Sum>p\<in>#mset ?g. mset (map (\<lambda>q. (fst p, fst q)) (snd p)))"
    using inner by (intro arg_cong[where f = sum_mset] image_mset_cong) simp
  also have "\<dots> = mset (allKeys ?g)"
    by (simp add: allKeys_def mset_concat comp_def flip: sum_mset_sum_list)
  finally show ?thesis .
qed

lemma length_outputKeys:
  "length (outputKeys revisions) = sum_list (map (\<lambda>grp. length (Reviewers grp)) revisions)"
  by (simp add: outputKeys_def length_concat comp_def)

section \<open>The order of the reviewers of a revision\<close>

lemma sorted_wrt_insort_key_ties:
  assumes "sorted_wrt (\<lambda>a b. f a \<le> f b \<and> (f a = f b \<longrightarrow> P a b)) ys"
    and "\<forall>y \<in> set ys. P x y"
  shows "sorted_wrt (\<lambda>a b. f a \<le> f b \<and> (f a = f b \<longrightarrow> P a b)) (insort_key f x ys)"
  using assms
proof (induction ys)
  case Nil
  then show ?case by simp
next
  case (Cons y ys)
  show ?case
  proof (cases "f x \<le> f y")
    case True
    have "f x \<le> f z \<and> (f x = f z \<longrightarrow> P x z)" if "z \<in> set (y # ys)" for z
    proof -
      have "f y \<le> f z" using Cons.prems(1) that by auto
      with True have "f x \<le> f z" by simp
      moreover have "P x z" using Cons.prems(2) that by blast
      ultimately show ?thesis by simp
    qed
    with True Cons.prems(1) show ?thesis by simp
  next
    case False
    then have "f y \<le> f x" "f y \<noteq> f x" by auto
    moreover have "sorted_wrt (\<lambda>a b. f a \<le> f b \<and> (f a = f b \<longrightarrow> P a b)) (insort_key f x ys)"
      using Cons by simp
    ultimately show ?thesis
      using False Cons.prems(1) by (auto simp: set_insort_key)
  qed
qed

lemma sorted_wrt_sort_key_ties:
  assumes "sorted_wrt P xs"
  shows "sorted_wrt (\<lambda>a b. f a \<le> f b \<and> (f a = f b \<longrightarrow> P a b)) (sort_key f xs)"
  using assms
proof (induction xs)
  case Nil
  then show ?case by simp
next
  case (Cons x xs)
  then have "sorted_wrt (\<lambda>a b. f a \<le> f b \<and> (f a = f b \<longrightarrow> P a b)) (sort_key f xs)"
    and "\<forall>y \<in> set (sort_key f xs). P x y"
    by simp_all
  then show ?case by (simp add: sorted_wrt_insort_key_ties)
qed

lemma firstIndex_le: "firstIndex es k \<le> length es"
  by (simp add: firstIndex_def length_takeWhile_le)

lemma firstIndex_less_iff: "firstIndex es k < length es \<longleftrightarrow> k \<in> eventKey ` set es"
  unfolding firstIndex_def by (induction es) auto

lemma firstIndex_snoc_old:
  "k \<in> eventKey ` set es \<Longrightarrow> firstIndex (es @ [e]) k = firstIndex es k"
  unfolding firstIndex_def by (induction es) auto

lemma firstIndex_snoc_new:
  "k \<notin> eventKey ` set es \<Longrightarrow> eventKey e = k \<Longrightarrow> firstIndex (es @ [e]) k = length es"
  unfolding firstIndex_def by (induction es) auto

lemma keys_reviewerMapAt:
  "set (map fst (reviewerMapAt (groupEvents es) rv)) = {i. (rv, i) \<in> eventKey ` set es}"
proof -
  have "i \<in> fst ` set (reviewerMapAt (groupEvents es) rv) \<longleftrightarrow> (rv, i) \<in> eventKey ` set es" for i
  proof -
    have "i \<in> fst ` set (reviewerMapAt (groupEvents es) rv) \<longleftrightarrow>
          reviewerAt (groupEvents es) rv i \<noteq> None"
      by (simp add: reviewerAt_def map_of_eq_None_iff)
    also have "\<dots> \<longleftrightarrow> eventsOf es (rv, i) \<noteq> []"
      by (simp add: reviewerAt_groupEvents)
    also have "\<dots> \<longleftrightarrow> (rv, i) \<in> eventKey ` set es"
      by (force simp: eventsOf_def filter_empty_conv)
    finally show ?thesis .
  qed
  then show ?thesis by auto
qed

lemma creation_order:
  "sorted_wrt (\<lambda>a b. firstIndex es (rv, a) < firstIndex es (rv, b))
     (map fst (reviewerMapAt (groupEvents es) rv))"
proof (induction es rule: rev_induct)
  case Nil
  then show ?case by (simp add: groupEvents_Nil reviewerMapAt_def)
next
  case (snoc e es)
  let ?m = "reviewerMapAt (groupEvents es) rv"
  have old: "firstIndex (es @ [e]) (rv, a) = firstIndex es (rv, a)" if "a \<in> set (map fst ?m)" for a
    using that keys_reviewerMapAt[of es rv] by (simp add: firstIndex_snoc_old)
  have keep: "sorted_wrt (\<lambda>a b. firstIndex (es @ [e]) (rv, a) < firstIndex (es @ [e]) (rv, b))
      (map fst ?m)"
  proof (rule sorted_wrt_mono_rel[OF _ snoc.IH])
    fix a b assume "a \<in> set (map fst ?m)" "b \<in> set (map fst ?m)"
      "firstIndex es (rv, a) < firstIndex es (rv, b)"
    then show "firstIndex (es @ [e]) (rv, a) < firstIndex (es @ [e]) (rv, b)"
      by (simp add: old)
  qed
  show ?case
  proof (cases "rv = Revision e \<and> ReviewEvent.Id e \<notin> set (map fst ?m)")
    case False
    then have "map fst (reviewerMapAt (groupEvents (es @ [e])) rv) = map fst ?m"
      by (auto simp: groupEvents_snoc reviewerMapAt_foldEvent update_keys)
    with keep show ?thesis by simp
  next
    case True
    then have keys: "map fst (reviewerMapAt (groupEvents (es @ [e])) rv) =
        map fst ?m @ [ReviewEvent.Id e]"
      by (auto simp: groupEvents_snoc reviewerMapAt_foldEvent update_keys)
    from True have "(rv, ReviewEvent.Id e) \<notin> eventKey ` set es"
      using keys_reviewerMapAt[of es rv] by auto
    moreover from True have "eventKey e = (rv, ReviewEvent.Id e)" by (simp add: eventKey_def)
    ultimately have new: "firstIndex (es @ [e]) (rv, ReviewEvent.Id e) = length es"
      by (simp add: firstIndex_snoc_new)
    have "firstIndex (es @ [e]) (rv, a) < length es" if "a \<in> set (map fst ?m)" for a
    proof -
      from that have "(rv, a) \<in> eventKey ` set es" using keys_reviewerMapAt[of es rv] by auto
      then have "firstIndex es (rv, a) < length es" by (simp add: firstIndex_less_iff)
      with old[OF that] show ?thesis by simp
    qed
    with keep new show ?thesis by (simp add: keys sorted_wrt_append)
  qed
qed

lemma enumeration_order:
  assumes d: "distinct (map fst m)"
    and c: "sorted_wrt (\<lambda>a b. firstIndex es (rv, a) < firstIndex es (rv, b)) (map fst m)"
  shows "sorted_wrt (enumeratedBefore es rv) (map fst (objEntries m))"
proof -
  let ?A = "sort_key fst (filter (\<lambda>p. isArrayIndex (fst p)) m)"
  let ?B = "filter (\<lambda>p. \<not> isArrayIndex (fst p)) m"
  have "distinct (map fst (filter (\<lambda>p. isArrayIndex (fst p)) m))"
    using d by (simp add: distinct_map_filter)
  moreover have "mset (map fst ?A) = mset (map fst (filter (\<lambda>p. isArrayIndex (fst p)) m))"
    by simp
  ultimately have "distinct (map fst ?A)"
    using mset_eq_imp_distinct_iff by blast
  moreover have "sorted (map fst ?A)" by (rule sorted_sort_key)
  ultimately have sa: "sorted_wrt (<) (map fst ?A)" by (simp add: strict_sorted_iff)
  have ia: "\<forall>k \<in> set (map fst ?A). isArrayIndex k" by auto
  have a: "sorted_wrt (enumeratedBefore es rv) (map fst ?A)"
  proof (rule sorted_wrt_mono_rel[OF _ sa])
    fix x y assume "x \<in> set (map fst ?A)" "y \<in> set (map fst ?A)" "x < y"
    with ia show "enumeratedBefore es rv x y" unfolding enumeratedBefore_def by metis
  qed
  have "map fst ?B = filter (\<lambda>k. \<not> isArrayIndex k) (map fst m)"
    by (simp add: filter_map comp_def)
  then have sb: "sorted_wrt (\<lambda>a b. firstIndex es (rv, a) < firstIndex es (rv, b)) (map fst ?B)"
    using c by (simp add: sorted_wrt_filter)
  have ib: "\<forall>k \<in> set (map fst ?B). \<not> isArrayIndex k" by auto
  have b: "sorted_wrt (enumeratedBefore es rv) (map fst ?B)"
  proof (rule sorted_wrt_mono_rel[OF _ sb])
    fix x y assume "x \<in> set (map fst ?B)" "y \<in> set (map fst ?B)"
      "firstIndex es (rv, x) < firstIndex es (rv, y)"
    with ib show "enumeratedBefore es rv x y" unfolding enumeratedBefore_def by metis
  qed
  have "\<forall>x \<in> set (map fst ?A). \<forall>y \<in> set (map fst ?B). enumeratedBefore es rv x y"
    using ia ib unfolding enumeratedBefore_def by metis
  with a b show ?thesis
    unfolding objEntries_def map_append sorted_wrt_append by blast
qed

lemma Id_objValues:
  assumes "\<forall>q \<in> set m. ReviewerData.Id (snd q) = fst q"
  shows "map ReviewerData.Id (objValues m) = map fst (objEntries m)"
  using assms by (simp add: objValues_def set_objEntries)

lemma reviewers_order:
  assumes "grp \<in> set (revisionsOf es)"
  shows "sorted_wrt (\<lambda>a b. ReviewerData.LastUpdated a \<le> ReviewerData.LastUpdated b \<and>
            (ReviewerData.LastUpdated a = ReviewerData.LastUpdated b \<longrightarrow>
               enumeratedBefore es (RevisionData.Id grp) (ReviewerData.Id a) (ReviewerData.Id b)))
          (Reviewers grp)"
proof -
  let ?g = "groupEvents es"
  have wf: "wellFormed ?g" by (rule wellFormed_groupEvents)
  from assms obtain rv m where p: "(rv, m) \<in> set ?g" and grp: "grp = toRevisionData (rv, m)"
    by (auto simp: set_revisionsOf)
  have m: "reviewerMapAt ?g rv = m" by (rule wellFormed_map_of[OF wf p])
  have d: "distinct (map fst m)" using wellFormed_reviewerMapAt(1)[OF wf, of rv] m by simp
  have i: "\<forall>q \<in> set m. ReviewerData.Id (snd q) = fst q"
    using wellFormed_reviewerMapAt(2)[OF wf, of rv] m by simp
  have "sorted_wrt (\<lambda>a b. firstIndex es (rv, a) < firstIndex es (rv, b)) (map fst m)"
    using creation_order[of es rv] m by simp
  with d have "sorted_wrt (enumeratedBefore es rv) (map fst (objEntries m))"
    by (rule enumeration_order)
  then have "sorted_wrt (enumeratedBefore es rv) (map ReviewerData.Id (objValues m))"
    by (simp add: Id_objValues[OF i])
  then have "sorted_wrt (\<lambda>a b. enumeratedBefore es rv (ReviewerData.Id a) (ReviewerData.Id b))
      (objValues m)"
    by (simp add: sorted_wrt_map)
  then have "sorted_wrt (\<lambda>a b. ReviewerData.LastUpdated a \<le> ReviewerData.LastUpdated b \<and>
            (ReviewerData.LastUpdated a = ReviewerData.LastUpdated b \<longrightarrow>
               enumeratedBefore es rv (ReviewerData.Id a) (ReviewerData.Id b)))
          (sort_key ReviewerData.LastUpdated (objValues m))"
    by (rule sorted_wrt_sort_key_ties)
  then show ?thesis by (simp add: grp toRevisionData_def)
qed

section \<open>Inputs with the same events for every key\<close>

lemma sort_key_fst_unique:
  fixes xs ys :: "(int \<times> 'a) list"
  assumes "distinct (map fst xs)" "distinct (map fst ys)" "set xs = set ys"
  shows "sort_key fst xs = sort_key fst ys"
proof (rule map_sorted_distinct_set_unique[where f = fst])
  have "distinct (map fst (sort_key fst xs))"
    using mset_eq_imp_distinct_iff[of "map fst (sort_key fst xs)" "map fst xs"] assms(1) by simp
  then show "distinct (map fst (sort_key fst xs))" .
  have "distinct (map fst (sort_key fst ys))"
    using mset_eq_imp_distinct_iff[of "map fst (sort_key fst ys)" "map fst ys"] assms(2) by simp
  then show "distinct (map fst (sort_key fst ys))" .
  show "sorted (map fst (sort_key fst xs))" "sorted (map fst (sort_key fst ys))"
    by (rule sorted_sort_key)+
  show "set (sort_key fst xs) = set (sort_key fst ys)" using assms(3) by simp
  have "inj_on fst (set xs)" using assms(1) by (simp add: distinct_map)
  then show "inj_on fst (set (sort_key fst xs) \<union> set (sort_key fst ys))"
    using assms(3) by simp
qed

lemma set_reviewerMapAt:
  "set (reviewerMapAt (groupEvents es) rv) =
     {(i, r). eventsOf es (rv, i) \<noteq> [] \<and>
              r = foldl applyEvent (newReviewer i) (eventsOf es (rv, i))}"
proof -
  have d: "distinct (map fst (reviewerMapAt (groupEvents es) rv))"
    by (rule wellFormed_reviewerMapAt(1)[OF wellFormed_groupEvents])
  have "(i, r) \<in> set (reviewerMapAt (groupEvents es) rv) \<longleftrightarrow>
        reviewerAt (groupEvents es) rv i = Some r" for i r
    using d by (simp add: reviewerAt_def)
  then show ?thesis by (auto simp: reviewerAt_groupEvents split: if_splits)
qed

lemma sorted_entries_as_map:
  assumes "wellFormed g"
  shows "sort_key fst (objEntries g) =
         map (\<lambda>rv. (rv, reviewerMapAt g rv)) (map fst (sort_key fst (objEntries g)))"
proof -
  have "p = (fst p, reviewerMapAt g (fst p))" if "p \<in> set (sort_key fst (objEntries g))" for p
  proof -
    from that have "(fst p, snd p) \<in> set g" by (simp add: set_objEntries)
    from wellFormed_map_of[OF assms this] show ?thesis by simp
  qed
  then have "map (\<lambda>p. (fst p, reviewerMapAt g (fst p))) (sort_key fst (objEntries g)) =
             map (\<lambda>p. p) (sort_key fst (objEntries g))"
    by (intro map_cong) simp_all
  then show ?thesis by (simp add: comp_def)
qed

lemma revision_keys_unique:
  assumes "Revision ` set es' = Revision ` set es"
  shows "map fst (sort_key fst (objEntries (groupEvents es'))) =
         map fst (sort_key fst (objEntries (groupEvents es)))"
proof (rule sorted_distinct_set_unique)
  show "sorted (map fst (sort_key fst (objEntries (groupEvents es'))))"
    "sorted (map fst (sort_key fst (objEntries (groupEvents es))))"
    by (rule sorted_sort_key)+
  have "distinct (map fst (groupEvents es))" "distinct (map fst (groupEvents es'))"
    using wellFormed_groupEvents by (simp_all add: wellFormed_def)
  then show "distinct (map fst (sort_key fst (objEntries (groupEvents es'))))"
    "distinct (map fst (sort_key fst (objEntries (groupEvents es))))"
    by (simp_all add: distinct_keys_sort_entries)
  show "set (map fst (sort_key fst (objEntries (groupEvents es')))) =
        set (map fst (sort_key fst (objEntries (groupEvents es))))"
    using assms by (simp add: set_objEntries keys_groupEvents)
qed

lemma LastUpdated_foldl_max:
  "ReviewerData.LastUpdated (foldl applyEvent r es) =
     foldl max (ReviewerData.LastUpdated r) (map Date es)"
  by (induction es arbitrary: r) (simp_all add: LastUpdated_applyEvent)

lemma LastUpdated_lastUpdatedOf:
  assumes "reviewerAt (groupEvents es) rv i = Some r"
  shows "ReviewerData.LastUpdated r = lastUpdatedOf es (rv, i)"
proof -
  from assms have "r = foldl applyEvent (newReviewer i) (eventsOf es (rv, i))"
    by (simp add: reviewerAt_groupEvents split: if_splits)
  then show ?thesis
    by (simp add: LastUpdated_foldl_max lastUpdatedOf_def newReviewer_def)
qed

lemma entry_reviewerAt:
  assumes "q \<in> set (reviewerMapAt (groupEvents es) rv)"
  shows "reviewerAt (groupEvents es) rv (fst q) = Some (snd q)"
proof -
  have "distinct (map fst (reviewerMapAt (groupEvents es) rv))"
    by (rule wellFormed_reviewerMapAt(1)[OF wellFormed_groupEvents])
  with assms show ?thesis by (simp add: reviewerAt_def)
qed

lemma entry_event:
  assumes "q \<in> set (reviewerMapAt (groupEvents es) rv)"
  shows "\<exists>e \<in> set es. eventKey e = (rv, fst q)"
proof -
  from entry_reviewerAt[OF assms] have "eventsOf es (rv, fst q) \<noteq> []"
    by (simp add: reviewerAt_groupEvents split: if_splits)
  then show ?thesis by (auto simp: eventsOf_def filter_empty_conv)
qed

lemma same_events_same_set:
  assumes "\<forall>k. eventsOf es' k = eventsOf es k"
  shows "set es' = set es"
proof -
  have "e \<in> set es' \<longleftrightarrow> e \<in> set es" for e
  proof -
    have "e \<in> set xs \<longleftrightarrow> e \<in> set (eventsOf xs (eventKey e))" for xs
      by (simp add: set_eventsOf)
    with assms show ?thesis by metis
  qed
  then show ?thesis by blast
qed

lemma tied_entries_cong:
  assumes k: "\<forall>k. eventsOf es' k = eventsOf es k" and t: "tiesKeepOrder es es'"
  shows "filter (\<lambda>q. \<not> isArrayIndex (fst q) \<and> ReviewerData.LastUpdated (snd q) = u)
           (reviewerMapAt (groupEvents es') rv) =
         filter (\<lambda>q. \<not> isArrayIndex (fst q) \<and> ReviewerData.LastUpdated (snd q) = u)
           (reviewerMapAt (groupEvents es) rv)"
    (is "?T' = ?T")
proof (rule map_sorted_distinct_set_unique[where f = "\<lambda>q. firstIndex es (rv, fst q)"])
  let ?m = "reviewerMapAt (groupEvents es) rv"
  let ?m' = "reviewerMapAt (groupEvents es') rv"
  let ?g = "\<lambda>q. firstIndex es (rv, fst q)"
  let ?g' = "\<lambda>q. firstIndex es' (rv, fst q)"
  have s: "set ?m' = set ?m" using k by (simp add: set_reviewerMapAt)
  then show st: "set ?T' = set ?T" by simp
  have "sorted_wrt (\<lambda>p q. ?g p < ?g q) ?m"
    using creation_order[of es rv] by (simp add: sorted_wrt_map)
  then have a: "sorted_wrt (\<lambda>p q. ?g p < ?g q) ?T" by (rule sorted_wrt_filter)
  have "sorted_wrt (\<lambda>p q. ?g' p < ?g' q) ?m'"
    using creation_order[of es' rv] by (simp add: sorted_wrt_map)
  then have b': "sorted_wrt (\<lambda>p q. ?g' p < ?g' q) ?T'" by (rule sorted_wrt_filter)
  have b: "sorted_wrt (\<lambda>p q. ?g p < ?g q) ?T'"
  proof (rule sorted_wrt_mono_rel[OF _ b'])
    fix p q assume p: "p \<in> set ?T'" and q: "q \<in> set ?T'" and less: "?g' p < ?g' q"
    from p q s have pm: "p \<in> set ?m" and qm: "q \<in> set ?m" by auto
    from entry_event[OF pm] obtain e1 where e1: "e1 \<in> set es" "eventKey e1 = (rv, fst p)"
      by blast
    from entry_event[OF qm] obtain e2 where e2: "e2 \<in> set es" "eventKey e2 = (rv, fst q)"
      by blast
    have "ReviewerData.LastUpdated (snd p) = lastUpdatedOf es (rv, fst p)"
      by (rule LastUpdated_lastUpdatedOf[OF entry_reviewerAt[OF pm]])
    moreover have "ReviewerData.LastUpdated (snd q) = lastUpdatedOf es (rv, fst q)"
      by (rule LastUpdated_lastUpdatedOf[OF entry_reviewerAt[OF qm]])
    moreover have "ReviewerData.LastUpdated (snd p) = u" "ReviewerData.LastUpdated (snd q) = u"
      using p q by simp_all
    ultimately have tie: "lastUpdatedOf es (eventKey e1) = lastUpdatedOf es (eventKey e2)"
      using e1 e2 by simp
    have ni: "\<not> isArrayIndex (ReviewEvent.Id e1)" "\<not> isArrayIndex (ReviewEvent.Id e2)"
      using p q e1 e2 by (simp_all add: eventKey_def)
    have rr: "Revision e1 = Revision e2" using e1 e2 by (simp add: eventKey_def)
    from t e1(1) e2(1) rr ni tie
    have "firstIndex es' (eventKey e1) < firstIndex es' (eventKey e2) \<longleftrightarrow>
          firstIndex es (eventKey e1) < firstIndex es (eventKey e2)"
      unfolding tiesKeepOrder_def by blast
    with less e1 e2 show "?g p < ?g q" by simp
  qed
  from a have sa: "sorted_wrt (<) (map ?g ?T)" by (simp add: sorted_wrt_map)
  from b have sb: "sorted_wrt (<) (map ?g ?T')" by (simp add: sorted_wrt_map)
  from sa show "sorted (map ?g ?T)" "distinct (map ?g ?T)" by (simp_all add: strict_sorted_iff)
  from sb show "sorted (map ?g ?T')" "distinct (map ?g ?T')" by (simp_all add: strict_sorted_iff)
  from sa have "inj_on ?g (set ?T)" by (simp add: strict_sorted_iff distinct_map)
  then show "inj_on ?g (set ?T' \<union> set ?T)" using st by simp
qed

lemma reviewers_cong:
  assumes k: "\<forall>k. eventsOf es' k = eventsOf es k" and t: "tiesKeepOrder es es'"
  shows "sort_key ReviewerData.LastUpdated (objValues (reviewerMapAt (groupEvents es') rv)) =
         sort_key ReviewerData.LastUpdated (objValues (reviewerMapAt (groupEvents es) rv))"
proof (rule properties_for_sort_key)
  let ?m = "reviewerMapAt (groupEvents es) rv"
  let ?m' = "reviewerMapAt (groupEvents es') rv"
  let ?LU = "ReviewerData.LastUpdated"
  have s: "set ?m' = set ?m" using k by (simp add: set_reviewerMapAt)
  have d: "distinct (map fst ?m)" "distinct (map fst ?m')"
    by (rule wellFormed_reviewerMapAt(1)[OF wellFormed_groupEvents])+
  then have "distinct ?m" "distinct ?m'" by (simp_all add: distinct_map)
  with s have ms: "mset ?m' = mset ?m" by (simp add: set_eq_iff_mset_eq_distinct)
  show "mset (sort_key ?LU (objValues ?m)) = mset (objValues ?m')"
    by (simp add: objValues_def mset_objEntries ms)
  show "sorted (map ?LU (sort_key ?LU (objValues ?m)))" by (rule sorted_sort_key)
  have A: "sort_key fst (filter (\<lambda>p. isArrayIndex (fst p)) ?m') =
           sort_key fst (filter (\<lambda>p. isArrayIndex (fst p)) ?m)"
    using d s by (intro sort_key_fst_unique) (simp_all add: distinct_map_filter)
  fix x
  let ?u = "?LU x"
  have "filter (\<lambda>y. ?LU y = ?u) (objValues ?m') = filter (\<lambda>y. ?LU y = ?u) (objValues ?m)"
  proof -
    have "filter (\<lambda>q. ?LU (snd q) = ?u) (filter (\<lambda>p. \<not> isArrayIndex (fst p)) ?m') =
          filter (\<lambda>q. ?LU (snd q) = ?u) (filter (\<lambda>p. \<not> isArrayIndex (fst p)) ?m)"
      using tied_entries_cong[OF k t, of ?u rv] by (simp add: conj_commute)
    then show ?thesis
      by (simp add: objValues_def objEntries_def filter_map comp_def A)
  qed
  moreover have "filter (\<lambda>y. ?LU y = ?u) (sort_key ?LU (objValues ?m)) =
                 filter (\<lambda>y. ?LU y = ?u) (objValues ?m)"
    by (rule sort_key_stable)
  ultimately have "filter (\<lambda>y. ?LU y = ?u) (sort_key ?LU (objValues ?m)) =
                   filter (\<lambda>y. ?LU y = ?u) (objValues ?m')"
    by simp
  then show "filter (\<lambda>y. ?LU x = ?LU y) (sort_key ?LU (objValues ?m)) =
             filter (\<lambda>y. ?LU x = ?LU y) (objValues ?m')"
    by (simp add: eq_commute[of "?LU x"])
qed

lemma revisionsOf_same_events:
  assumes k: "\<forall>k. eventsOf es' k = eventsOf es k" and t: "tiesKeepOrder es es'"
  shows "revisionsOf es' = revisionsOf es"
proof -
  have "set es' = set es" by (rule same_events_same_set[OF k])
  then have ks: "map fst (sort_key fst (objEntries (groupEvents es'))) =
      map fst (sort_key fst (objEntries (groupEvents es)))"
    by (intro revision_keys_unique) simp
  have r: "toRevisionData (rv, reviewerMapAt (groupEvents es') rv) =
           toRevisionData (rv, reviewerMapAt (groupEvents es) rv)" for rv
    using reviewers_cong[OF k t, of rv] by (simp add: toRevisionData_def)
  have "revisionsOf es' =
      map toRevisionData (map (\<lambda>rv. (rv, reviewerMapAt (groupEvents es') rv))
        (map fst (sort_key fst (objEntries (groupEvents es')))))"
    unfolding revisionsOf_def
    using sorted_entries_as_map[OF wellFormed_groupEvents, of es'] by simp
  also have "\<dots> = map toRevisionData (map (\<lambda>rv. (rv, reviewerMapAt (groupEvents es) rv))
        (map fst (sort_key fst (objEntries (groupEvents es)))))"
    by (simp add: ks r comp_def)
  also have "\<dots> = revisionsOf es"
    unfolding revisionsOf_def
    using sorted_entries_as_map[OF wellFormed_groupEvents, of es] by simp
  finally show ?thesis .
qed

lemma sorted_wrt_both:
  assumes "sorted_wrt P xs" "sorted_wrt Q xs" "x \<in> set xs" "y \<in> set xs" "x \<noteq> y"
  shows "(P x y \<and> Q x y) \<or> (P y x \<and> Q y x)"
  using assms by (induction xs) auto

lemma distinct_revision_ids: "distinct (map RevisionData.Id (revisionsOf es))"
proof -
  have "distinct (map fst (groupEvents es))"
    using wellFormed_groupEvents[of es] by (simp add: wellFormed_def)
  then show ?thesis
    by (simp add: map_Id_revisionsOf distinct_keys_sort_entries)
qed

lemma same_result_ties:
  assumes k: "\<forall>k. eventsOf es' k = eventsOf es k" and eq: "revisionsOf es' = revisionsOf es"
  shows "tiesKeepOrder es es'"
  unfolding tiesKeepOrder_def
proof (intro ballI impI)
  fix e1 e2
  assume e1: "e1 \<in> set es" and e2: "e2 \<in> set es"
    and h: "Revision e1 = Revision e2 \<and>
        \<not> isArrayIndex (ReviewEvent.Id e1) \<and> \<not> isArrayIndex (ReviewEvent.Id e2) \<and>
        lastUpdatedOf es (eventKey e1) = lastUpdatedOf es (eventKey e2)"
  let ?rv = "Revision e1"
  let ?a = "ReviewEvent.Id e1"
  let ?b = "ReviewEvent.Id e2"
  have ka: "eventKey e1 = (?rv, ?a)" and kb: "eventKey e2 = (?rv, ?b)"
    using h by (simp_all add: eventKey_def)
  show "firstIndex es' (eventKey e1) < firstIndex es' (eventKey e2) \<longleftrightarrow>
        firstIndex es (eventKey e1) < firstIndex es (eventKey e2)"
  proof (cases "?a = ?b")
    case True
    then show ?thesis by (simp add: ka kb)
  next
    case False
    from eventsOf_nonempty[OF e1] obtain ra
      where ra: "reviewerAt (groupEvents es) ?rv ?a = Some ra"
      by (simp add: reviewerAt_groupEvents ka)
    from eventsOf_nonempty[OF e2] obtain rb
      where rb: "reviewerAt (groupEvents es) ?rv ?b = Some rb"
      by (simp add: reviewerAt_groupEvents kb)
    have ia: "ReviewerData.Id ra = ?a" by (rule reviewerAt_Id[OF wellFormed_groupEvents ra])
    have ib: "ReviewerData.Id rb = ?b" by (rule reviewerAt_Id[OF wellFormed_groupEvents rb])
    from h have "lastUpdatedOf es (eventKey e1) = lastUpdatedOf es (eventKey e2)" by blast
    then have "lastUpdatedOf es (?rv, ?a) = lastUpdatedOf es (?rv, ?b)"
      by (simp only: ka kb)
    then have tie: "ReviewerData.LastUpdated ra = ReviewerData.LastUpdated rb"
      by (simp only: LastUpdated_lastUpdatedOf[OF ra] LastUpdated_lastUpdatedOf[OF rb])
    from output_of_reviewer[OF ra] obtain grp
      where grp: "grp \<in> set (revisionsOf es)" "RevisionData.Id grp = ?rv"
        "ra \<in> set (Reviewers grp)" by blast
    from output_of_reviewer[OF rb] obtain grp2
      where grp2: "grp2 \<in> set (revisionsOf es)" "RevisionData.Id grp2 = ?rv"
        "rb \<in> set (Reviewers grp2)" by blast
    have inj: "inj_on RevisionData.Id (set (revisionsOf es))"
      using distinct_revision_ids[of es] by (simp add: distinct_map)
    have "grp2 = grp"
      using inj_onD[OF inj _ grp2(1) grp(1)] grp(2) grp2(2) by simp
    with grp2 have rbin: "rb \<in> set (Reviewers grp)" by simp
    have ne: "ra \<noteq> rb" using False ia ib by auto
    have g': "grp \<in> set (revisionsOf es')" using grp(1) eq by simp
    from sorted_wrt_both[OF reviewers_order[OF grp(1)] reviewers_order[OF g'] grp(3) rbin ne]
    have "(enumeratedBefore es ?rv ?a ?b \<and> enumeratedBefore es' ?rv ?a ?b) \<or>
          (enumeratedBefore es ?rv ?b ?a \<and> enumeratedBefore es' ?rv ?b ?a)"
      using tie ia ib grp(2) by auto
    then show ?thesis
      using h by (auto simp: enumeratedBefore_def ka kb)
  qed
qed

section \<open>Evaluation of the sample data\<close>

lemmas sample_defs = formatReviewData_def revisionsOf_def groupEvents_def foldEvent_def
  applyEvent_def newReviewer_def toRevisionData_def objValues_def objEntries_def
  isArrayIndex_def manuscript_def formatted_def revisionData_def reviewerData_def ev_def Let_def

section \<open>Claims\<close>

subsection \<open>C1: a later event of the same kind overwrites, the update time is a maximum\<close>

text \<open>
  Claim C1, as amended. Two events of the same kind and the same key are folded in the
  order of the input: the date field of that kind holds the timestamp of the second event,
  whether it is smaller or not, and \<open>LastUpdated\<close> is the largest of the two timestamps
  and of its value before them (\<open>0\<close> for a new reviewer), so it keeps the earlier
  timestamp when that one is larger and not negative. For \<open>{t:10, Invited, rev 1, id 1}\<close>
  followed by \<open>{t:5, Invited, rev 1, id 1}\<close> the result has \<open>InvitedDate = 5\<close> and
  \<open>LastUpdated = 10\<close>. The first part is about the result for these two events alone,
  the second about the two steps of the fold on any reviewer state.
\<close>

theorem later_event_overwrites:
  assumes "Event e2 = Event e1" and "eventKey e2 = eventKey e1"
  shows "(\<exists>r. map_option Revisions (formatReviewData (Some (rd\<lparr>ReviewEvents := [e1, e2]\<rparr>))) =
              Some [revisionData (Revision e1) [r]] \<and>
            dateOf (Event e1) r = Date e2 \<and>
            ReviewerData.LastUpdated r = max 0 (max (Date e1) (Date e2)) \<and>
            (Date e2 < Date e1 \<and> 0 \<le> Date e1 \<longrightarrow> ReviewerData.LastUpdated r = Date e1)) \<and>
         (\<forall>r0. dateOf (Event e1) (applyEvent (applyEvent r0 e1) e2) = Date e2 \<and>
               ReviewerData.LastUpdated (applyEvent (applyEvent r0 e1) e2) =
                 max (ReviewerData.LastUpdated r0) (max (Date e1) (Date e2)))"
proof
  let ?r = "applyEvent (applyEvent (newReviewer (ReviewEvent.Id e1)) e1) e2"
  have "dateOf (Event e1) ?r = Date e2"
    using dateOf_applyEvent[of e2] assms(1) by simp
  moreover have lu: "ReviewerData.LastUpdated ?r = max 0 (max (Date e1) (Date e2))"
    by (simp add: LastUpdated_applyEvent newReviewer_def max.assoc)
  moreover have "Date e2 < Date e1 \<and> 0 \<le> Date e1 \<longrightarrow> ReviewerData.LastUpdated ?r = Date e1"
    unfolding lu by simp
  moreover have "map_option Revisions (formatReviewData (Some (rd\<lparr>ReviewEvents := [e1, e2]\<rparr>))) =
      Some [revisionData (Revision e1) [?r]]"
    by (simp add: formatReviewData_def revisionsOf_single_key[OF assms(2)])
  ultimately show "\<exists>r. map_option Revisions
        (formatReviewData (Some (rd\<lparr>ReviewEvents := [e1, e2]\<rparr>))) =
              Some [revisionData (Revision e1) [r]] \<and>
            dateOf (Event e1) r = Date e2 \<and>
            ReviewerData.LastUpdated r = max 0 (max (Date e1) (Date e2)) \<and>
            (Date e2 < Date e1 \<and> 0 \<le> Date e1 \<longrightarrow> ReviewerData.LastUpdated r = Date e1)"
    by blast
next
  show "\<forall>r0. dateOf (Event e1) (applyEvent (applyEvent r0 e1) e2) = Date e2 \<and>
               ReviewerData.LastUpdated (applyEvent (applyEvent r0 e1) e2) =
                 max (ReviewerData.LastUpdated r0) (max (Date e1) (Date e2))"
    using dateOf_applyEvent[of e2] assms(1)
    by (simp add: LastUpdated_applyEvent max.assoc)
qed

theorem later_event_overwrites_witness:
  "\<exists>r. map_option Revisions
         (formatReviewData (Some (manuscript [ev 10 Invited 1 1, ev 5 Invited 1 1]))) =
        Some [revisionData 1 [r]] \<and>
       InvitedDate r = 5 \<and> ReviewerData.LastUpdated r = 10"
  using later_event_overwrites[of "ev 5 Invited 1 1" "ev 10 Invited 1 1" "manuscript []"]
  by (simp add: manuscript_def ev_def eventKey_def dateOf_def)

text \<open>
  With the timestamps \<open>-3\<close> then \<open>-5\<close> the field \<open>InvitedDate\<close> is \<open>-5\<close> and
  \<open>LastUpdated\<close> stays at its initial \<open>0\<close>: it is not the larger earlier timestamp
  \<open>-3\<close>.
\<close>

theorem overwrite_negative_counterexample:
  "formatReviewData (Some (manuscript [ev (- 3) Invited 1 1, ev (- 5) Invited 1 1])) =
     Some (formatted [revisionData 1 [reviewerData 1 (- 5) 0 0 0]])"
  by (simp add: sample_defs)

subsection \<open>C2: the order of the reviewers of a revision\<close>

text \<open>
  Claim C2, as amended. In every revision group of the result the reviewers are in
  ascending order of \<open>LastUpdated\<close>, and two reviewers with the same \<open>LastUpdated\<close> are in
  the order in which \<open>Object.values\<close> enumerates them: identifiers that are array indices
  first, in ascending numeric order, then the other identifiers in the order in which their
  keys first occurred in the input.
\<close>

theorem reviewers_ascending_ties_enumerated:
  "\<exists>out. formatReviewData (Some rd) = Some out \<and>
     (\<forall>grp \<in> set (Revisions out).
        sorted_wrt (\<lambda>a b. ReviewerData.LastUpdated a \<le> ReviewerData.LastUpdated b \<and>
            (ReviewerData.LastUpdated a = ReviewerData.LastUpdated b \<longrightarrow>
               enumeratedBefore (ReviewEvents rd) (RevisionData.Id grp)
                 (ReviewerData.Id a) (ReviewerData.Id b)))
          (Reviewers grp))"
  by (simp add: formatReviewData_def reviewers_order)

theorem reviewers_ascending_ties_enumerated_witness:
  "formatReviewData (Some (manuscript [ev 5 Invited 1 2, ev 5 Invited 1 1, ev 3 Invited 1 (- 4),
       ev 5 Invited 1 (- 1), ev 5 Invited 1 (- 2)])) =
     Some (formatted [revisionData 1 [reviewerData (- 4) 3 0 0 3, reviewerData 1 5 0 0 5,
       reviewerData 2 5 0 0 5, reviewerData (- 1) 5 0 0 5, reviewerData (- 2) 5 0 0 5]]) \<and>
   enumeratedBefore [ev 5 Invited 1 2, ev 5 Invited 1 1, ev 3 Invited 1 (- 4),
       ev 5 Invited 1 (- 1), ev 5 Invited 1 (- 2)] 1 1 2 \<and>
   enumeratedBefore [ev 5 Invited 1 2, ev 5 Invited 1 1, ev 3 Invited 1 (- 4),
       ev 5 Invited 1 (- 1), ev 5 Invited 1 (- 2)] 1 2 (- 1) \<and>
   enumeratedBefore [ev 5 Invited 1 2, ev 5 Invited 1 1, ev 3 Invited 1 (- 4),
       ev 5 Invited 1 (- 1), ev 5 Invited 1 (- 2)] 1 (- 1) (- 2)"
proof -
  let ?es = "[ev 5 Invited 1 2, ev 5 Invited 1 1, ev 3 Invited 1 (- 4),
       ev 5 Invited 1 (- 1), ev 5 Invited 1 (- 2)]"
  have c: "formatReviewData (Some (manuscript ?es)) =
     Some (formatted [revisionData 1 [reviewerData (- 4) 3 0 0 3, reviewerData 1 5 0 0 5,
       reviewerData 2 5 0 0 5, reviewerData (- 1) 5 0 0 5, reviewerData (- 2) 5 0 0 5]])"
    by (simp add: sample_defs)
  from reviewers_ascending_ties_enumerated[of "manuscript ?es"] c
  have "enumeratedBefore ?es 1 1 2 \<and> enumeratedBefore ?es 1 2 (- 1) \<and>
        enumeratedBefore ?es 1 (- 1) (- 2)"
    by (simp add: formatted_def revisionData_def reviewerData_def manuscript_def)
  with c show ?thesis by simp
qed

text \<open>
  Reviewer \<open>2\<close> occurs first in the input and reviewer \<open>1\<close> second, with the same
  timestamp: the result has reviewer \<open>1\<close> before reviewer \<open>2\<close>.
\<close>

theorem ties_not_in_input_order_counterexample:
  "formatReviewData (Some (manuscript [ev 5 Invited 1 2, ev 5 Invited 1 1])) =
     Some (formatted [revisionData 1 [reviewerData 1 5 0 0 5, reviewerData 2 5 0 0 5]]) \<and>
   firstIndex [ev 5 Invited 1 2, ev 5 Invited 1 1] (1, 2) = 0 \<and>
   firstIndex [ev 5 Invited 1 2, ev 5 Invited 1 1] (1, 1) = 1"
  by (simp add: sample_defs firstIndex_def eventKey_def)

subsection \<open>C3: no input is rejected\<close>

text \<open>
  Claim C3, as amended. The aggregation has no validation and no error to signal: for
  every input of the declared type it returns a result, in which every event, whatever
  the sign of its revision number, has the group of its revision and the reviewer of its
  identifier.
\<close>

theorem never_signals_error:
  "\<exists>out. formatReviewData (Some rd) = Some out \<and>
     (\<forall>e \<in> set (ReviewEvents rd). \<exists>grp \<in> set (Revisions out).
        RevisionData.Id grp = Revision e \<and>
        (\<exists>r \<in> set (Reviewers grp). ReviewerData.Id r = ReviewEvent.Id e))"
proof -
  let ?es = "ReviewEvents rd"
  have "\<exists>grp \<in> set (revisionsOf ?es). RevisionData.Id grp = Revision e \<and>
        (\<exists>r \<in> set (Reviewers grp). ReviewerData.Id r = ReviewEvent.Id e)"
    if "e \<in> set ?es" for e
  proof -
    from that have "eventsOf ?es (Revision e, ReviewEvent.Id e) \<noteq> []"
      using eventsOf_nonempty[of e ?es] by (simp add: eventKey_def)
    then obtain r where r: "reviewerAt (groupEvents ?es) (Revision e) (ReviewEvent.Id e) = Some r"
      by (simp add: reviewerAt_groupEvents)
    then have "ReviewerData.Id r = ReviewEvent.Id e"
      by (rule reviewerAt_Id[OF wellFormed_groupEvents])
    with output_of_reviewer[OF r] show ?thesis by blast
  qed
  then show ?thesis by (simp add: formatReviewData_def)
qed

theorem never_signals_error_witness:
  "\<exists>out. formatReviewData (Some (manuscript [ev 7 Invited (- 1) 1])) = Some out \<and>
     (\<exists>grp \<in> set (Revisions out). RevisionData.Id grp = - 1 \<and>
        (\<exists>r \<in> set (Reviewers grp). ReviewerData.Id r = 1))"
  using never_signals_error[of "manuscript [ev 7 Invited (- 1) 1]"]
  by (simp add: manuscript_def ev_def)

text \<open>
  An event with the revision number \<open>-1\<close> is not rejected: it is aggregated into a group
  of that number.
\<close>

theorem no_validation_counterexample:
  "formatReviewData (Some (manuscript [ev 7 Invited (- 1) 1])) =
     Some (formatted [revisionData (- 1) [reviewerData 1 7 0 0 7]])"
  by (simp add: sample_defs)

subsection \<open>C4: the update time of a reviewer\<close>

text \<open>
  Claim C4, as amended. For every event sequence and every key, the \<open>LastUpdated\<close> field
  of the reviewer of that key does not decrease when one more event is folded in, the
  reviewer is never removed, and after the fold (in the object, and in the result) the field
  is the maximum of \<open>0\<close> and of the timestamps of the events of that key.
\<close>

theorem lastUpdated_monotone_max:
  "(\<forall>r. reviewerAt (groupEvents es) rv i = Some r \<longrightarrow>
      (\<exists>r'. reviewerAt (groupEvents (es @ [e])) rv i = Some r' \<and>
            ReviewerData.LastUpdated r \<le> ReviewerData.LastUpdated r')) \<and>
   (\<forall>r. reviewerAt (groupEvents es) rv i = Some r \<longrightarrow>
      ReviewerData.LastUpdated r = Max (insert 0 (Date ` set (eventsOf es (rv, i))))) \<and>
   (\<forall>grp \<in> set (revisionsOf es). \<forall>r \<in> set (Reviewers grp).
      ReviewerData.LastUpdated r =
        Max (insert 0 (Date ` set (eventsOf es (RevisionData.Id grp, ReviewerData.Id r)))))"
proof (intro conjI allI impI ballI)
  fix r assume "reviewerAt (groupEvents es) rv i = Some r"
  then show "\<exists>r'. reviewerAt (groupEvents (es @ [e])) rv i = Some r' \<and>
            ReviewerData.LastUpdated r \<le> ReviewerData.LastUpdated r'"
    by (simp add: groupEvents_snoc reviewerAt_foldEvent LastUpdated_applyEvent)
next
  fix r assume "reviewerAt (groupEvents es) rv i = Some r"
  then show "ReviewerData.LastUpdated r = Max (insert 0 (Date ` set (eventsOf es (rv, i))))"
    by (rule LastUpdated_reviewerAt)
next
  fix grp r assume "grp \<in> set (revisionsOf es)" "r \<in> set (Reviewers grp)"
  then have "reviewerAt (groupEvents es) (RevisionData.Id grp) (ReviewerData.Id r) = Some r"
    by (rule reviewer_in_output)
  then show "ReviewerData.LastUpdated r =
        Max (insert 0 (Date ` set (eventsOf es (RevisionData.Id grp, ReviewerData.Id r))))"
    by (rule LastUpdated_reviewerAt)
qed

theorem lastUpdated_monotone_max_witness:
  "reviewerAt (groupEvents [ev 100 Invited 1 1, ev 200 Accepted 1 1]) 1 1 =
     Some (reviewerData 1 100 200 0 200) \<and>
   (\<exists>r'. reviewerAt (groupEvents ([ev 100 Invited 1 1, ev 200 Accepted 1 1] @
             [ev 50 Completed 1 1])) 1 1 = Some r' \<and>
         200 \<le> ReviewerData.LastUpdated r') \<and>
   Max (insert 0 (Date ` set (eventsOf [ev 100 Invited 1 1, ev 200 Accepted 1 1] (1, 1)))) = 200 \<and>
   revisionData 1 [reviewerData 1 100 200 0 200] \<in>
     set (revisionsOf [ev 100 Invited 1 1, ev 200 Accepted 1 1])"
proof -
  let ?es = "[ev 100 Invited 1 1, ev 200 Accepted 1 1]"
  have a: "reviewerAt (groupEvents ?es) 1 1 = Some (reviewerData 1 100 200 0 200)"
    by (simp add: sample_defs reviewerAt_def reviewerMapAt_def)
  have b: "revisionData 1 [reviewerData 1 100 200 0 200] \<in> set (revisionsOf ?es)"
    by (simp add: sample_defs)
  show ?thesis
    using lastUpdated_monotone_max[of ?es 1 1 "ev 50 Completed 1 1"] a b
    by (simp add: reviewerData_def)
qed

text \<open>
  The field starts at \<open>0\<close>: after the single event of timestamp \<open>-5\<close> it is \<open>0\<close>, which
  is not the maximum timestamp of the events folded.
\<close>

theorem lastUpdated_max_counterexample:
  "formatReviewData (Some (manuscript [ev (- 5) Invited 1 1])) =
     Some (formatted [revisionData 1 [reviewerData 1 (- 5) 0 0 0]]) \<and>
   Max (Date ` set (eventsOf [ev (- 5) Invited 1 1] (1, 1))) = - 5"
  by (simp add: sample_defs eventsOf_def eventKey_def)

subsection \<open>C5: the derived status\<close>

text \<open>
  Claim C5. The status is \<open>Completed\<close> when the completion date is set (not \<open>0\<close>),
  whatever the two other dates are; otherwise \<open>Accepted\<close> when the acceptance date is
  set, whatever the invitation date is; otherwise \<open>Invited\<close> when the invitation date is
  set; otherwise \<open>Unknown\<close>.
\<close>

theorem getStatus_precedence:
  "(CompletedDate r \<noteq> 0 \<longrightarrow>
      getStatus (r\<lparr>InvitedDate := a, AcceptedDate := b\<rparr>) = ''Completed'') \<and>
   (CompletedDate r = 0 \<and> AcceptedDate r \<noteq> 0 \<longrightarrow>
      getStatus (r\<lparr>InvitedDate := a\<rparr>) = ''Accepted'') \<and>
   (CompletedDate r = 0 \<and> AcceptedDate r = 0 \<and> InvitedDate r \<noteq> 0 \<longrightarrow>
      getStatus r = ''Invited'') \<and>
   (CompletedDate r = 0 \<and> AcceptedDate r = 0 \<and> InvitedDate r = 0 \<longrightarrow>
      getStatus r = ''Unknown'')"
  by (simp add: getStatus_def)

theorem getStatus_precedence_witness:
  "getStatus (reviewerData 1 0 0 300 300) = ''Completed'' \<and>
   getStatus (reviewerData 1 100 200 300 300) = ''Completed'' \<and>
   getStatus (reviewerData 1 100 200 0 200) = ''Accepted'' \<and>
   getStatus (reviewerData 1 0 200 0 200) = ''Accepted'' \<and>
   getStatus (reviewerData 1 100 0 0 100) = ''Invited'' \<and>
   getStatus (reviewerData 1 0 0 0 0) = ''Unknown''"
  using getStatus_precedence[where r = "reviewerData 1 100 200 300 300" and a = 0 and b = 0]
    getStatus_precedence[where r = "reviewerData 1 100 200 300 300" and a = 100 and b = 200]
    getStatus_precedence[where r = "reviewerData 1 100 200 0 200" and a = 100 and b = 200]
    getStatus_precedence[where r = "reviewerData 1 100 200 0 200" and a = 0 and b = 200]
    getStatus_precedence[where r = "reviewerData 1 100 0 0 100" and a = 0 and b = 0]
    getStatus_precedence[where r = "reviewerData 1 0 0 0 0" and a = 0 and b = 0]
  by (simp add: reviewerData_def)

subsection \<open>C6: the revisions are strictly ascending\<close>

text \<open>
  Claim C6. For every input, the revision numbers of the groups of the result are
  strictly ascending, hence without duplicates.
\<close>

theorem revisions_strictly_ascending:
  "\<exists>out. formatReviewData (Some rd) = Some out \<and>
     sorted_wrt (<) (map RevisionData.Id (Revisions out)) \<and>
     distinct (map RevisionData.Id (Revisions out))"
proof -
  let ?ks = "map fst (sort_key fst (objEntries (groupEvents (ReviewEvents rd))))"
  have "wellFormed (groupEvents (ReviewEvents rd))" by (rule wellFormed_groupEvents)
  then have "distinct (map fst (groupEvents (ReviewEvents rd)))" by (simp add: wellFormed_def)
  then have d: "distinct ?ks" by (rule distinct_keys_sort_entries)
  have "sorted ?ks" by (rule sorted_sort_key)
  with d have "sorted_wrt (<) ?ks" by (simp add: strict_sorted_iff)
  with d show ?thesis by (simp add: formatReviewData_def map_Id_revisionsOf)
qed

subsection \<open>C7: one reviewer state for each key\<close>

text \<open>
  Claim C7. For every input, the number of reviewer states in the result is the number
  of distinct (revision, reviewer) keys of the input; the keys of the states of the
  result are distinct, and they are the keys of the input.
\<close>

theorem one_state_per_key:
  "\<exists>out. formatReviewData (Some rd) = Some out \<and>
     sum_list (map (\<lambda>grp. length (Reviewers grp)) (Revisions out)) =
       card (eventKey ` set (ReviewEvents rd)) \<and>
     distinct (outputKeys (Revisions out)) \<and>
     set (outputKeys (Revisions out)) = eventKey ` set (ReviewEvents rd)"
proof -
  let ?es = "ReviewEvents rd"
  let ?g = "groupEvents ?es"
  have wf: "wellFormed ?g" by (rule wellFormed_groupEvents)
  have m: "mset (outputKeys (revisionsOf ?es)) = mset (allKeys ?g)" by (rule mset_outputKeys)
  have "distinct (allKeys ?g)"
    using wf by (intro distinct_allKeys) (simp_all add: wellFormed_def)
  then have d: "distinct (outputKeys (revisionsOf ?es))"
    using mset_eq_imp_distinct_iff[OF m] by simp
  have s: "set (outputKeys (revisionsOf ?es)) = eventKey ` set ?es"
    using mset_eq_setD[OF m] by (simp add: set_allKeys_groupEvents)
  have "length (outputKeys (revisionsOf ?es)) = card (eventKey ` set ?es)"
    using distinct_card[OF d] s by simp
  then have "sum_list (map (\<lambda>grp. length (Reviewers grp)) (revisionsOf ?es)) =
      card (eventKey ` set ?es)"
    by (simp add: length_outputKeys)
  with d s show ?thesis by (simp add: formatReviewData_def)
qed

subsection \<open>C8: reordering events of distinct keys\<close>

text \<open>
  Claim C8, as amended. When two inputs have the same events in the same order for every
  key, their results are the same if and only if the two inputs agree on the ties: within
  each revision, any two reviewers whose identifiers are not array indices and whose
  \<open>LastUpdated\<close> are equal have their keys first occur in the same relative order in both.
  This holds in particular when every identifier is an integer from \<open>0\<close> to \<open>2^32 - 2\<close>,
  and when no two reviewers of a revision have the same \<open>LastUpdated\<close>.
\<close>

theorem reordering_disjoint_keys:
  assumes "\<forall>k. eventsOf es' k = eventsOf es k"
  shows "formatReviewData (Some (rd\<lparr>ReviewEvents := es'\<rparr>)) =
         formatReviewData (Some (rd\<lparr>ReviewEvents := es\<rparr>)) \<longleftrightarrow>
         tiesKeepOrder es es'"
proof
  assume "formatReviewData (Some (rd\<lparr>ReviewEvents := es'\<rparr>)) =
          formatReviewData (Some (rd\<lparr>ReviewEvents := es\<rparr>))"
  then have "revisionsOf es' = revisionsOf es" by (simp add: formatReviewData_def)
  with assms show "tiesKeepOrder es es'" by (rule same_result_ties)
next
  assume "tiesKeepOrder es es'"
  with assms have "revisionsOf es' = revisionsOf es" by (rule revisionsOf_same_events)
  then show "formatReviewData (Some (rd\<lparr>ReviewEvents := es'\<rparr>)) =
             formatReviewData (Some (rd\<lparr>ReviewEvents := es\<rparr>))"
    by (simp add: formatReviewData_def)
qed

theorem reordering_disjoint_keys_witness:
  "tiesKeepOrder
     [ev 5 Invited 1 (- 1), ev 5 Accepted 1 (- 1), ev 5 Invited 1 (- 2), ev 6 Invited 1 (- 3),
      ev 5 Invited 2 (- 4)]
     [ev 5 Invited 2 (- 4), ev 6 Invited 1 (- 3), ev 5 Invited 1 (- 1), ev 5 Invited 1 (- 2),
      ev 5 Accepted 1 (- 1)] \<and>
   formatReviewData (Some (manuscript
     [ev 5 Invited 1 (- 1), ev 5 Accepted 1 (- 1), ev 5 Invited 1 (- 2), ev 6 Invited 1 (- 3),
      ev 5 Invited 2 (- 4)])) =
     Some (formatted [revisionData 1 [reviewerData (- 1) 5 5 0 5, reviewerData (- 2) 5 0 0 5,
                        reviewerData (- 3) 6 0 0 6],
                      revisionData 2 [reviewerData (- 4) 5 0 0 5]]) \<and>
   formatReviewData (Some (manuscript
     [ev 5 Invited 2 (- 4), ev 6 Invited 1 (- 3), ev 5 Invited 1 (- 1), ev 5 Invited 1 (- 2),
      ev 5 Accepted 1 (- 1)])) =
     Some (formatted [revisionData 1 [reviewerData (- 1) 5 5 0 5, reviewerData (- 2) 5 0 0 5,
                        reviewerData (- 3) 6 0 0 6],
                      revisionData 2 [reviewerData (- 4) 5 0 0 5]])"
proof -
  let ?es = "[ev 5 Invited 1 (- 1), ev 5 Accepted 1 (- 1), ev 5 Invited 1 (- 2),
      ev 6 Invited 1 (- 3), ev 5 Invited 2 (- 4)]"
  let ?es' = "[ev 5 Invited 2 (- 4), ev 6 Invited 1 (- 3), ev 5 Invited 1 (- 1),
      ev 5 Invited 1 (- 2), ev 5 Accepted 1 (- 1)]"
  have k: "\<forall>k. eventsOf ?es' k = eventsOf ?es k"
    by (auto simp: eventsOf_def eventKey_def ev_def)
  have t: "tiesKeepOrder ?es ?es'"
    by (simp add: tiesKeepOrder_def lastUpdatedOf_def firstIndex_def eventsOf_def eventKey_def
        ev_def isArrayIndex_def)
  have c: "formatReviewData (Some (manuscript ?es)) =
     Some (formatted [revisionData 1 [reviewerData (- 1) 5 5 0 5, reviewerData (- 2) 5 0 0 5,
                        reviewerData (- 3) 6 0 0 6],
                      revisionData 2 [reviewerData (- 4) 5 0 0 5]])"
    by (simp add: sample_defs)
  have "formatReviewData (Some (manuscript ?es')) = formatReviewData (Some (manuscript ?es))"
    using reordering_disjoint_keys[OF k, of "manuscript []"] t by (simp add: manuscript_def)
  with c t show ?thesis by simp
qed

text \<open>
  The reviewers \<open>-1\<close> and \<open>-2\<close> have distinct keys and the same timestamp: exchanging
  their two events exchanges them in the result.
\<close>

theorem reordering_disjoint_keys_counterexample:
  "eventKey (ev 5 Invited 1 (- 1)) \<noteq> eventKey (ev 5 Invited 1 (- 2)) \<and>
   formatReviewData (Some (manuscript [ev 5 Invited 1 (- 1), ev 5 Invited 1 (- 2)])) =
     Some (formatted [revisionData 1 [reviewerData (- 1) 5 0 0 5, reviewerData (- 2) 5 0 0 5]]) \<and>
   formatReviewData (Some (manuscript [ev 5 Invited 1 (- 2), ev 5 Invited 1 (- 1)])) =
     Some (formatted [revisionData 1 [reviewerData (- 2) 5 0 0 5, reviewerData (- 1) 5 0 0 5]]) \<and>
   formatReviewData (Some (manuscript [ev 5 Invited 1 (- 1), ev 5 Invited 1 (- 2)])) \<noteq>
   formatReviewData (Some (manuscript [ev 5 Invited 1 (- 2), ev 5 Invited 1 (- 1)]))"
  by (simp add: sample_defs eventKey_def)

subsection \<open>C9: the metadata pass through\<close>

text \<open>
  Claim C9. For every input, the six metadata fields of the result are those of the
  input, and an empty event list gives no revision group.
\<close>

theorem metadata_passthrough:
  "\<exists>out. formatReviewData (Some rd) = Some out \<and>
     FormattedReviewData.CorrespondingAuthor out = ReviewData.CorrespondingAuthor rd \<and>
     FormattedReviewData.JournalAcronym out = ReviewData.JournalAcronym rd \<and>
     FormattedReviewData.JournalName out = ReviewData.JournalName rd \<and>
     FormattedReviewData.LastUpdated out = ReviewData.LastUpdated rd \<and>
     FormattedReviewData.ManuscriptTitle out = ReviewData.ManuscriptTitle rd \<and>
     FormattedReviewData.SubmissionDate out = ReviewData.SubmissionDate rd \<and>
     (ReviewEvents rd = [] \<longrightarrow> Revisions out = [])"
  by (simp add: formatReviewData_def revisionsOf_def groupEvents_def objEntries_def)

theorem metadata_passthrough_witness:
  "ReviewEvents (manuscript []) = [] \<and>
   (\<exists>out. formatReviewData (Some (manuscript [])) = Some out \<and>
      FormattedReviewData.CorrespondingAuthor out = ''A. Author'' \<and>
      FormattedReviewData.JournalAcronym out = ''JRN'' \<and>
      FormattedReviewData.JournalName out = ''Journal'' \<and>
      FormattedReviewData.LastUpdated out = 1700000500 \<and>
      FormattedReviewData.ManuscriptTitle out = ''Title'' \<and>
      FormattedReviewData.SubmissionDate out = 1700000000 \<and>
      Revisions out = [])"
  using metadata_passthrough[of "manuscript []"]
  by (simp add: manuscript_def)

subsection \<open>C10: with positive timestamps no status is Unknown\<close>

text \<open>
  Claim C10. When every timestamp of the input is strictly positive, every reviewer of
  the result has one of its three dates set, and its status is not \<open>Unknown\<close>.
\<close>

theorem positive_timestamps_known_status:
  assumes "\<forall>e \<in> set (ReviewEvents rd). 0 < Date e"
  shows "\<exists>out. formatReviewData (Some rd) = Some out \<and>
           (\<forall>grp \<in> set (Revisions out). \<forall>r \<in> set (Reviewers grp).
              (InvitedDate r \<noteq> 0 \<or> AcceptedDate r \<noteq> 0 \<or> CompletedDate r \<noteq> 0) \<and>
              getStatus r \<noteq> ''Unknown'')"
proof -
  have nz: "\<forall>e \<in> set (ReviewEvents rd). Date e \<noteq> 0" using assms by auto
  have "(InvitedDate r \<noteq> 0 \<or> AcceptedDate r \<noteq> 0 \<or> CompletedDate r \<noteq> 0) \<and>
        getStatus r \<noteq> ''Unknown''"
    if "grp \<in> set (revisionsOf (ReviewEvents rd))" "r \<in> set (Reviewers grp)" for grp r
  proof -
    have "reviewerAt (groupEvents (ReviewEvents rd)) (RevisionData.Id grp) (ReviewerData.Id r)
          = Some r"
      using that by (rule reviewer_in_output)
    then have "InvitedDate r \<noteq> 0 \<or> AcceptedDate r \<noteq> 0 \<or> CompletedDate r \<noteq> 0"
      using nz by (rule someDate_reviewerAt)
    then show ?thesis by (auto simp: getStatus_def)
  qed
  then show ?thesis by (simp add: formatReviewData_def)
qed

theorem positive_timestamps_known_status_witness:
  "formatReviewData (Some (manuscript [ev 100 Invited 1 1, ev 50 Invited 1 2])) =
     Some (formatted [revisionData 1 [reviewerData 2 50 0 0 50, reviewerData 1 100 0 0 100]]) \<and>
   getStatus (reviewerData 2 50 0 0 50) \<noteq> ''Unknown'' \<and>
   getStatus (reviewerData 1 100 0 0 100) \<noteq> ''Unknown''"
proof -
  let ?rd = "manuscript [ev 100 Invited 1 1, ev 50 Invited 1 2]"
  have h: "\<forall>e \<in> set (ReviewEvents ?rd). 0 < Date e"
    by (simp add: manuscript_def ev_def)
  have c: "formatReviewData (Some ?rd) =
     Some (formatted [revisionData 1 [reviewerData 2 50 0 0 50, reviewerData 1 100 0 0 100]])"
    by (simp add: sample_defs)
  from positive_timestamps_known_status[OF h] c
  have "getStatus (reviewerData 2 50 0 0 50) \<noteq> ''Unknown'' \<and>
        getStatus (reviewerData 1 100 0 0 100) \<noteq> ''Unknown''"
    by (simp add: formatted_def revisionData_def)
  with c show ?thesis by simp
qed

end
